theory Spec2Isabelle
  imports Main "HOL-Library.Word"
begin

section \<open>Audio capture and incremental transcription (GetUserAudio.tsx)\<close>

text \<open>
  The component file \<^verbatim>\<open>src/components/GetUserAudio.tsx\<close> keeps three module-level
  variables (\<^verbatim>\<open>firstString\<close>, \<^verbatim>\<open>transcriptionText\<close>, \<^verbatim>\<open>transcriptionIteration\<close>) and
  builds two button components, \<^verbatim>\<open>MicAudioButton\<close> and \<^verbatim>\<open>DesktopAudioButton\<close>, from
  the generic \<^verbatim>\<open>CaptureAudioGeneric\<close>. The embedding below is a single-threaded event
  loop: every callback of the source (\<^verbatim>\<open>captureAudio\<close> up to its \<^verbatim>\<open>await\<close> and after
  it, \<^verbatim>\<open>stopAudio\<close>, \<^verbatim>\<open>recorder.ondataavailable\<close>, \<^verbatim>\<open>track.onended\<close>, and the three
  \<^verbatim>\<open>.then\<close> callbacks) is a function on the process state, and the environment (user,
  React, device layer, recorder, transcription and summarization services) chooses
  which one runs next.
\<close>

subsection \<open>JavaScript strings: \<^verbatim>\<open>slice\<close> and \<^verbatim>\<open>trim\<close>\<close>

text \<open>A JavaScript string is a sequence of 16-bit code units; \<^verbatim>\<open>length\<close> counts them.\<close>

type_synonym jsstring = "16 word list"

definition js :: "string \<Rightarrow> jsstring" where
  "js cs = map (\<lambda>c. of_nat (of_char c)) cs"

text \<open>
  \<^verbatim>\<open>String.prototype.slice(start, end)\<close>: a negative index counts from the end, both
  indices are clamped to the string, and an empty span gives the empty string.
\<close>

definition slice :: "jsstring \<Rightarrow> int \<Rightarrow> int \<Rightarrow> jsstring" where
  "slice s start finish =
     (let len = int (length s);
          from = (if start < 0 then max (len + start) 0 else min start len);
          to = (if finish < 0 then max (len + finish) 0 else min finish len);
          span = max (to - from) 0
      in take (nat span) (drop (nat from) s))"

text \<open>
  \<^verbatim>\<open>String.prototype.trim()\<close> removes leading and trailing white space and line
  terminators: TAB, LF, VT, FF, CR, SP, NBSP, U+1680, U+2000..U+200A, U+2028, U+2029,
  U+202F, U+205F, U+3000 and U+FEFF.
\<close>

definition isWhiteSpace :: "16 word \<Rightarrow> bool" where
  "isWhiteSpace u \<longleftrightarrow>
     u = 0x09 \<or> u = 0x0A \<or> u = 0x0B \<or> u = 0x0C \<or> u = 0x0D \<or> u = 0x20 \<or> u = 0xA0 \<or>
     u = 0x1680 \<or> (0x2000 \<le> u \<and> u \<le> 0x200A) \<or> u = 0x2028 \<or> u = 0x2029 \<or>
     u = 0x202F \<or> u = 0x205F \<or> u = 0x3000 \<or> u = 0xFEFF"

definition trim :: "jsstring \<Rightarrow> jsstring" where
  "trim s = rev (dropWhile isWhiteSpace (rev (dropWhile isWhiteSpace s)))"

subsection \<open>Browser objects\<close>

text \<open>
  \<^verbatim>\<open>captureFrom\<close> is the string \<^verbatim>\<open>"Microphone"\<close> or \<^verbatim>\<open>"Desktop"\<close>: the two instances
  that the file creates.
\<close>

datatype source = Microphone | Desktop

datatype track_kind = audio | video

datatype ready_state = live | ended

text \<open>
  A \<^verbatim>\<open>MediaStreamTrack\<close>. The only \<^verbatim>\<open>onended\<close> handler the source ever attaches is the
  one of \<^verbatim>\<open>captureAudio\<close>, closed over the recorder of the same call, so a flag says
  whether it is attached.
\<close>

record track =
  kind :: track_kind
  readyState :: ready_state
  onended :: bool

datatype recording_state = inactive | recording | paused

datatype js_error = NotAllowedError | NotFoundError | InvalidStateError

type_synonym chunk = "8 word list"

text \<open>
  One successful \<^verbatim>\<open>captureAudio\<close> call creates one \<^verbatim>\<open>MediaStream\<close> (from the device
  layer), one \<^verbatim>\<open>MediaRecorder\<close> on it, and the handlers closed over them. A \<open>capture\<close>
  holds these objects together. The handlers also close over the \<^verbatim>\<open>props\<close> and the
  \<^verbatim>\<open>chunks\<close> array of the render in which the button was clicked. \<^verbatim>\<open>let chunks = []\<close>
  is in the body of the component, so there is one array per render of an instance,
  and the capture refers to it by its number among the renders of its owner: two calls
  made from the same render share one array.
\<close>

record capture =
  owner :: source
  tracks :: "track list"
  rstate :: recording_state
  chunks :: nat

text \<open>
  A call of \<^verbatim>\<open>getMediaStream()\<close> that has not been answered yet, with the instance and
  the \<^verbatim>\<open>chunks\<close> array of the render whose \<^verbatim>\<open>captureAudio\<close> made it; or one that has.
\<close>

datatype request = Open source nat | Closed

text \<open>\<^verbatim>\<open>new Blob(chunks, { "type": "audio/wav;codecs=opus" })\<close>: the parts concatenated.\<close>

record blob =
  bytes :: "8 word list"
  mime :: string

definition Blob :: "chunk list \<Rightarrow> blob" where
  "Blob parts = \<lparr>bytes = concat parts, mime = ''audio/wav;codecs=opus''\<rparr>"

text \<open>
  The three promise chains of \<^verbatim>\<open>ondataavailable\<close>, each with the argument it was
  submitted with:
  \<^item> \<open>TFirst\<close>: \<^verbatim>\<open>transcribe(blob).then(text => { firstString = text })\<close>;
  \<^item> \<open>TAppend\<close>: \<^verbatim>\<open>transcribe(blob).then(text => { transcriptionText += ... })\<close>;
  \<^item> \<open>TSummary\<close>: \<^verbatim>\<open>summarize(transcriptionText).then(summary => setContent(summary))\<close>,
    with the instance whose \<^verbatim>\<open>props.editorRef\<close> the callback uses.
\<close>

datatype task = TFirst blob | TAppend blob | TSummary source jsstring

datatype promise = Pending task | Settled task

datatype log_entry = LogError js_error | LogText string

subsection \<open>The process state\<close>

text \<open>
  \<open>firstString\<close>, \<open>transcriptionText\<close> and \<open>transcriptionIteration\<close> are the module-level
  variables; \<open>mediaRecorder\<close> and \<open>mediaStream\<close> are the React state of each of the two
  component instances (a reference to a capture's recorder or stream, or \<^verbatim>\<open>null\<close>);
  \<open>rendered\<close> holds, for each instance, the \<^verbatim>\<open>chunks\<close> array of every render so far,
  the last one being that of the current render; \<open>requests\<close> are the calls of
  \<^verbatim>\<open>getMediaStream()\<close> made so far; \<open>captures\<close> is the heap of capture objects,
  \<open>promises\<close> the service calls made so far, \<open>console\<close> what \<^verbatim>\<open>console.log\<close> printed,
  and \<open>editor\<close> the \<^verbatim>\<open>setContent\<close> calls made on the editor of each instance.
\<close>

record process =
  firstString :: jsstring
  transcriptionText :: jsstring
  transcriptionIteration :: nat
  mediaRecorder :: "source \<Rightarrow> nat option"
  mediaStream :: "source \<Rightarrow> nat option"
  rendered :: "source \<Rightarrow> chunk list list"
  requests :: "request list"
  captures :: "capture list"
  promises :: "promise list"
  console :: "log_entry list"
  editor :: "(source \<times> jsstring) list"

definition init :: process where
  "init = \<lparr>firstString = [], transcriptionText = [], transcriptionIteration = 0,
           mediaRecorder = (\<lambda>_. None), mediaStream = (\<lambda>_. None),
           rendered = (\<lambda>_. [ [] ]), requests = [],
           captures = [], promises = [], console = [], editor = []\<rparr>"

subsection \<open>The recorder and track interfaces\<close>

text \<open>
  \<^verbatim>\<open>MediaRecorder.start\<close> throws \<^verbatim>\<open>InvalidStateError\<close> unless the recorder is inactive.
  \<^verbatim>\<open>MediaRecorder.stop\<close> on an inactive recorder threw \<^verbatim>\<open>InvalidStateError\<close> in the
  first versions of the interface and does nothing in the current one; the model takes
  the throwing version, which is what the guards of the source defend against.
\<close>

definition recorder_start :: "capture \<Rightarrow> js_error + capture" where
  "recorder_start c =
     (if rstate c = inactive then Inr (c\<lparr>rstate := recording\<rparr>) else Inl InvalidStateError)"

definition recorder_stop :: "capture \<Rightarrow> js_error + capture" where
  "recorder_stop c =
     (if rstate c = inactive then Inl InvalidStateError else Inr (c\<lparr>rstate := inactive\<rparr>))"

text \<open>\<^verbatim>\<open>track.stop()\<close> ends the track; it never throws and fires no event.\<close>

definition track_stop :: "track \<Rightarrow> track" where
  "track_stop t = t\<lparr>readyState := ended\<rparr>"

subsection \<open>\<^verbatim>\<open>captureAudio\<close>\<close>

text \<open>
  A click on the start button calls the \<^verbatim>\<open>captureAudio\<close> of the current render, which
  runs to \<^verbatim>\<open>await getMediaStream()\<close>: the call is made and nothing else happens until
  the device layer answers. The closure keeps the \<^verbatim>\<open>chunks\<close> array of that render.
\<close>

definition captureAudio_call :: "source \<Rightarrow> process \<Rightarrow> process" where
  "captureAudio_call captureFrom s =
     s\<lparr>requests := requests s @ [Open captureFrom (length (rendered s captureFrom) - 1)]\<rparr>"

text \<open>
  The rest of \<^verbatim>\<open>captureAudio\<close>, resumed in the closure whose \<^verbatim>\<open>chunks\<close> array is
  \<open>array\<close>. The device layer answers \<^verbatim>\<open>getMediaStream()\<close> with an error (the promise
  rejects) or with a stream of live tracks, given by their kinds. The result is what
  the caller of \<^verbatim>\<open>captureAudio\<close> receives: \<open>Inl\<close> a rejection, \<open>Inr ()\<close> normal
  completion. The whole body is inside
  \<^verbatim>\<open>try { ... } catch (err) { console.log(err) }\<close>. \<^verbatim>\<open>setMediaStream\<close> and
  \<^verbatim>\<open>setMediaRecorder\<close> change the state of the instance, so React renders it again
  before the next event, with a new empty \<^verbatim>\<open>chunks\<close> array; the handlers set here keep
  the array of their own closure. The constructor \<^verbatim>\<open>new MediaRecorder(mediaStream)\<close> is given no options
  and is taken not to throw; the period \<^verbatim>\<open>timeSlice\<close> only sets how often the recorder
  delivers data, which here is the environment's choice.
\<close>

definition captureAudio ::
  "source \<Rightarrow> nat \<Rightarrow> js_error + track_kind list \<Rightarrow> process
     \<Rightarrow> (js_error + unit) \<times> process" where
  "captureAudio captureFrom array answer s =
     (case answer of
        Inl err \<Rightarrow> (Inr (), s\<lparr>console := console s @ [LogError err]\<rparr>)
      | Inr kinds \<Rightarrow>
          (let k = length (captures s);
               ts = map (\<lambda>kd. \<lparr>kind = kd, readyState = live, onended = False\<rparr>) kinds;
               s1 = s\<lparr>mediaStream := (mediaStream s)(captureFrom \<mapsto> k),
                      rendered := (rendered s)(captureFrom := rendered s captureFrom @ [ [] ])\<rparr>;
               ts1 = (if captureFrom = Desktop
                      then map (\<lambda>t. t\<lparr>onended := True\<rparr>)
                             (map (\<lambda>t. if kind t = video then track_stop t else t) ts)
                      else ts);
               recorder = \<lparr>owner = captureFrom, tracks = ts1, rstate = inactive,
                           chunks = array\<rparr>;
               s2 = s1\<lparr>mediaRecorder := (mediaRecorder s1)(captureFrom \<mapsto> k)\<rparr>
           in case recorder_start recorder of
                Inl err \<Rightarrow>
                  (Inr (), s2\<lparr>captures := captures s2 @ [recorder],
                              console := console s2 @ [LogError err]\<rparr>)
              | Inr started \<Rightarrow> (Inr (), s2\<lparr>captures := captures s2 @ [started]\<rparr>)))"

subsection \<open>\<^verbatim>\<open>stopAudio\<close>\<close>

definition stopAudio :: "source \<Rightarrow> process \<Rightarrow> js_error + process" where
  "stopAudio src s =
     (case (case mediaRecorder s src of
              Some k \<Rightarrow>
                (if rstate (captures s ! k) \<noteq> inactive
                 then (case recorder_stop (captures s ! k) of
                         Inl err \<Rightarrow> Inl err
                       | Inr c \<Rightarrow> Inr (s\<lparr>captures := (captures s)[k := c],
                                         console := console s @ [LogText ''should stop'']\<rparr>))
                 else Inr s)
            | None \<Rightarrow> Inr s) of
        Inl err \<Rightarrow> Inl err
      | Inr s1 \<Rightarrow>
          (let s2 = (case mediaStream s1 src of
                       Some k \<Rightarrow>
                         s1\<lparr>captures := (captures s1)
                              [k := (captures s1 ! k)
                                 \<lparr>tracks := map track_stop (tracks (captures s1 ! k))\<rparr>]\<rparr>
                     | None \<Rightarrow> s1)
           in Inr (s2\<lparr>console := console s2 @ [LogText ''SHOULD STOP'']\<rparr>)))"

subsection \<open>\<^verbatim>\<open>recorder.ondataavailable\<close>\<close>

definition ondataavailable :: "nat \<Rightarrow> chunk \<Rightarrow> process \<Rightarrow> process" where
  "ondataavailable k e_data s =
     (let c = captures s ! k;
          array = rendered s (owner c) ! chunks c;
          popped = (if length array > 1 then butlast array else array);
          pushed = popped @ [e_data];
          s1 = s\<lparr>rendered := (rendered s)
                  (owner c := (rendered s (owner c))[chunks c := pushed])\<rparr>;
          blob = Blob pushed;
          s2 = (if transcriptionIteration s1 = 0
                then s1\<lparr>promises := promises s1 @ [Pending (TFirst blob)],
                        transcriptionText := firstString s1,
                        transcriptionIteration := transcriptionIteration s1 + 1\<rparr>
                else s1);
          s3 = (if transcriptionIteration s2 > 0
                then s2\<lparr>promises := promises s2 @ [Pending (TAppend blob)]\<rparr>
                else s2)
      in s3\<lparr>promises := promises s3 @ [Pending (TSummary (owner c) (transcriptionText s3))]\<rparr>)"

subsection \<open>The \<^verbatim>\<open>.then\<close> callbacks\<close>

text \<open>
  A pending promise settles once: fulfilled with a text, which runs its callback, or
  rejected, which runs nothing (no chain of the source has a rejection handler).
\<close>

definition then_callback :: "task \<Rightarrow> jsstring \<Rightarrow> process \<Rightarrow> process" where
  "then_callback t text s =
     (case t of
        TFirst _ \<Rightarrow> s\<lparr>firstString := text\<rparr>
      | TAppend _ \<Rightarrow>
          s\<lparr>transcriptionText :=
              transcriptionText s
              @ trim (slice text (int (length (firstString s))) (int (length text)))\<rparr>
      | TSummary src _ \<Rightarrow> s\<lparr>editor := editor s @ [(src, text)]\<rparr>)"

definition settle :: "nat \<Rightarrow> jsstring option \<Rightarrow> process \<Rightarrow> process" where
  "settle i result s =
     (if i < length (promises s)
      then (case promises s ! i of
              Settled _ \<Rightarrow> s
            | Pending t \<Rightarrow>
                (let s1 = s\<lparr>promises := (promises s)[i := Settled t]\<rparr>
                 in case result of None \<Rightarrow> s1 | Some text \<Rightarrow> then_callback t text s1))
      else s)"

subsection \<open>\<^verbatim>\<open>track.onended\<close>\<close>

text \<open>
  The device layer ends live track \<open>i\<close> of capture \<open>k\<close> (the user stops sharing); the
  browser marks the track ended and then fires its \<^verbatim>\<open>ended\<close> event.
\<close>

definition onended_handler :: "nat \<Rightarrow> process \<Rightarrow> js_error + process" where
  "onended_handler k s =
     (if rstate (captures s ! k) \<noteq> inactive
      then (case recorder_stop (captures s ! k) of
              Inl err \<Rightarrow> Inl err
            | Inr c \<Rightarrow> Inr (s\<lparr>captures := (captures s)[k := c]\<rparr>))
      else Inr s)"

definition trackEnded :: "nat \<Rightarrow> nat \<Rightarrow> process \<Rightarrow> js_error + process" where
  "trackEnded k i s =
     (if k < length (captures s) \<and> i < length (tracks (captures s ! k))
         \<and> readyState (tracks (captures s ! k) ! i) = live
      then (let c = captures s ! k;
                s1 = s\<lparr>captures := (captures s)[k := c\<lparr>tracks := (tracks c)[i := track_stop (tracks c ! i)]\<rparr>]\<rparr>
            in if onended (tracks c ! i) then onended_handler k s1 else Inr s1)
      else Inr s)"

subsection \<open>The event loop\<close>

text \<open>
  \<open>Click\<close>: the start button of an instance; \<open>Answer\<close>: the device layer answers a call
  of \<^verbatim>\<open>getMediaStream()\<close>; \<open>Stop\<close>: the stop button; \<open>Render\<close>: React renders an
  instance again for a reason of its own (its parent rendered), which gives the new
  closures a new empty \<^verbatim>\<open>chunks\<close> array; \<open>DataAvailable\<close>: a recorder delivers a chunk;
  \<open>TrackEnded\<close>: a track ends externally; \<open>Settle\<close>: a service call completes.
\<close>

datatype event =
    Click source
  | Answer nat "js_error + track_kind list"
  | Stop source
  | Render source
  | DataAvailable nat chunk
  | TrackEnded nat nat
  | Settle nat "jsstring option"

definition on_answer :: "nat \<Rightarrow> js_error + track_kind list \<Rightarrow> process \<Rightarrow> process" where
  "on_answer n a s =
     (if n < length (requests s)
      then (case requests s ! n of
              Closed \<Rightarrow> s
            | Open src array \<Rightarrow>
                snd (captureAudio src array a (s\<lparr>requests := (requests s)[n := Closed]\<rparr>)))
      else s)"

text \<open>An exception that escapes an event handler leaves the state as it was.\<close>

definition step :: "event \<Rightarrow> process \<Rightarrow> process" where
  "step e s =
     (case e of
        Click src \<Rightarrow> captureAudio_call src s
      | Answer n a \<Rightarrow> on_answer n a s
      | Stop src \<Rightarrow> (case stopAudio src s of Inl _ \<Rightarrow> s | Inr s' \<Rightarrow> s')
      | Render src \<Rightarrow> s\<lparr>rendered := (rendered s)(src := rendered s src @ [ [] ])\<rparr>
      | DataAvailable k d \<Rightarrow> (if k < length (captures s) then ondataavailable k d s else s)
      | TrackEnded k i \<Rightarrow> (case trackEnded k i s of Inl _ \<Rightarrow> s | Inr s' \<Rightarrow> s')
      | Settle i result \<Rightarrow> settle i result s)"

fun run :: "event list \<Rightarrow> process \<Rightarrow> process" where
  "run [] s = s"
| "run (e # es) s = run es (step e s)"

subsection \<open>Observations\<close>

text \<open>
  The state of the sessions: everything but what \<^verbatim>\<open>console.log\<close> has printed, which no
  code of the component reads back.
\<close>

definition session_state :: "process \<Rightarrow> process" where
  "session_state s = s\<lparr>console := []\<rparr>"

text \<open>
  What belongs to one component instance: its two React state variables, the
  \<^verbatim>\<open>chunks\<close> arrays of its renders, and the captures its own \<^verbatim>\<open>captureAudio\<close> calls
  created (recorder state, tracks and chunk buffer of each).
\<close>

definition captures_of :: "source \<Rightarrow> process \<Rightarrow> nat \<Rightarrow> capture option" where
  "captures_of src s k =
     (if k < length (captures s) \<and> owner (captures s ! k) = src
      then Some (captures s ! k) else None)"

definition instance_state ::
  "source \<Rightarrow> process
     \<Rightarrow> nat option \<times> nat option \<times> chunk list list \<times> (nat \<Rightarrow> capture option)" where
  "instance_state src s =
     (mediaRecorder s src, mediaStream s src, rendered s src, captures_of src s)"

text \<open>
  The instance whose button or handler an event runs. The completion of a service call
  runs a \<^verbatim>\<open>.then\<close> callback, which touches no instance's state.
\<close>

fun opened_by :: "request \<Rightarrow> source option" where
  "opened_by (Open src _) = Some src"
| "opened_by Closed = None"

definition operation_of :: "process \<Rightarrow> event \<Rightarrow> source option" where
  "operation_of s e =
     (case e of
        Click src \<Rightarrow> Some src
      | Answer n _ \<Rightarrow> (if n < length (requests s) then opened_by (requests s ! n) else None)
      | Stop src \<Rightarrow> Some src
      | Render src \<Rightarrow> Some src
      | DataAvailable k _ \<Rightarrow>
          (if k < length (captures s) then Some (owner (captures s ! k)) else None)
      | TrackEnded k _ \<Rightarrow>
          (if k < length (captures s) then Some (owner (captures s ! k)) else None)
      | Settle _ _ \<Rightarrow> None)"

text \<open>The module-level transcript variables, which every instance reads and writes.\<close>

definition transcript :: "process \<Rightarrow> jsstring \<times> jsstring \<times> nat" where
  "transcript s = (firstString s, transcriptionText s, transcriptionIteration s)"

text \<open>The calls made by the \<^verbatim>\<open>transcriptionIteration === 0\<close> branch, settled or not.\<close>

fun is_first :: "promise \<Rightarrow> bool" where
  "is_first (Pending (TFirst _)) = True"
| "is_first (Settled (TFirst _)) = True"
| "is_first _ = False"

text \<open>The texts that \<^verbatim>\<open>summarize\<close> has been called with, in call order.\<close>

fun summarized :: "promise list \<Rightarrow> jsstring list" where
  "summarized [] = []"
| "summarized (Pending (TSummary _ t) # ps) = t # summarized ps"
| "summarized (Settled (TSummary _ t) # ps) = t # summarized ps"
| "summarized (_ # ps) = summarized ps"


text \<open>
  References never dangle and never cross instances: the React state of an instance
  refers to a capture that the same instance created.
\<close>

definition refs_ok :: "process \<Rightarrow> bool" where
  "refs_ok s \<longleftrightarrow>
     (\<forall>src k. mediaRecorder s src = Some k \<longrightarrow>
        k < length (captures s) \<and> owner (captures s ! k) = src) \<and>
     (\<forall>src k. mediaStream s src = Some k \<longrightarrow>
        k < length (captures s) \<and> owner (captures s ! k) = src)"


text \<open>
  The two React state variables of an instance are set together, and every track of a
  Desktop capture has the \<^verbatim>\<open>onended\<close> handler.
\<close>

definition handlers_ok :: "process \<Rightarrow> bool" where
  "handlers_ok s \<longleftrightarrow>
     mediaStream s = mediaRecorder s \<and>
     (\<forall>k < length (captures s). owner (captures s ! k) = Desktop \<longrightarrow>
        (\<forall>t \<in> set (tracks (captures s ! k)). onended t))"

text \<open>A Desktop capture has at most one live track.\<close>

definition one_live :: "process \<Rightarrow> bool" where
  "one_live s \<longleftrightarrow>
     (\<forall>k < length (captures s). owner (captures s ! k) = Desktop \<longrightarrow>
        length (filter (\<lambda>t. readyState t = live) (tracks (captures s ! k))) \<le> 1)"

text \<open>
  \<^verbatim>\<open>getDisplayMedia({ audio: true, video: true })\<close> delivers at most one audio track.
  \<open>display_contract es s\<close> says that the environment keeps to this along the events
  \<open>es\<close> from state \<open>s\<close>: every stream that answers a call of the Desktop instance has at
  most one audio track.
\<close>

definition display_answer :: "process \<Rightarrow> event \<Rightarrow> bool" where
  "display_answer s e =
     (case e of
        Answer n a \<Rightarrow>
          (case a of
             Inl _ \<Rightarrow> True
           | Inr kinds \<Rightarrow>
               n < length (requests s) \<and> opened_by (requests s ! n) = Some Desktop
                 \<longrightarrow> length (filter (\<lambda>kd. kd = audio) kinds) \<le> 1)
      | _ \<Rightarrow> True)"

fun display_contract :: "event list \<Rightarrow> process \<Rightarrow> bool" where
  "display_contract [] s = True"
| "display_contract (e # es) s = (display_answer s e \<and> display_contract es (step e s))"

section \<open>Auxiliary facts\<close>

lemmas run_simps = step_def captureAudio_call_def on_answer_def captureAudio_def init_def
  recorder_start_def recorder_stop_def ondataavailable_def Blob_def settle_def
  then_callback_def trim_def slice_def js_def isWhiteSpace_def Let_def stopAudio_def
  trackEnded_def onended_handler_def track_stop_def

subsection \<open>Strings and lists\<close>

lemma slice_short: "length text \<le> n \<Longrightarrow> slice text (int n) (int (length text)) = []"
  by (simp add: slice_def Let_def)

lemma slice_suffix: "slice (a @ rest) (int (length a)) (int (length (a @ rest))) = rest"
  by (simp add: slice_def Let_def)

lemma trim_Nil: "trim [] = []"
  by (simp add: trim_def)

lemma nth_update_any:
  "(xs[k := x]) ! j = (if j = k \<and> k < length xs then x else xs ! j)"
  by (cases "k < length xs") (auto simp: nth_list_update list_update_beyond)

lemma track_stop_twice [simp]: "track_stop \<circ> track_stop = track_stop"
  by (rule ext) (simp add: track_stop_def)

subsection \<open>References stay valid\<close>

lemma refs_ok_frame:
  assumes ok: "refs_ok s"
    and len: "length (captures s) \<le> length (captures s')"
    and own: "\<And>k. k < length (captures s) \<Longrightarrow> owner (captures s' ! k) = owner (captures s ! k)"
    and rec: "\<And>src k. mediaRecorder s' src = Some k \<Longrightarrow>
                mediaRecorder s src = Some k
                \<or> (k < length (captures s') \<and> owner (captures s' ! k) = src)"
    and str: "\<And>src k. mediaStream s' src = Some k \<Longrightarrow>
                mediaStream s src = Some k
                \<or> (k < length (captures s') \<and> owner (captures s' ! k) = src)"
  shows "refs_ok s'"
  unfolding refs_ok_def
proof (intro conjI allI impI)
  fix src k assume r: "mediaRecorder s' src = Some k"
  from rec [OF r] show "k < length (captures s')"
    using ok len unfolding refs_ok_def by fastforce
  from rec [OF r] show "owner (captures s' ! k) = src"
    using ok own unfolding refs_ok_def by fastforce
next
  fix src k assume m: "mediaStream s' src = Some k"
  from str [OF m] show "k < length (captures s')"
    using ok len unfolding refs_ok_def by fastforce
  from str [OF m] show "owner (captures s' ! k) = src"
    using ok own unfolding refs_ok_def by fastforce
qed

lemma refs_ok_captureAudio: "refs_ok s \<Longrightarrow> refs_ok (snd (captureAudio src arr a s))"
  by (erule refs_ok_frame; cases a)
     (auto simp: captureAudio_def recorder_start_def Let_def nth_append split: if_splits)

lemma refs_ok_requests [simp]: "refs_ok (s\<lparr>requests := r\<rparr>) = refs_ok s"
  by (simp add: refs_ok_def)

lemma refs_ok_rendered [simp]: "refs_ok (s\<lparr>rendered := r\<rparr>) = refs_ok s"
  by (simp add: refs_ok_def)

lemma refs_ok_on_answer: "refs_ok s \<Longrightarrow> refs_ok (on_answer n a s)"
  by (simp add: on_answer_def refs_ok_captureAudio split: request.split)

lemma refs_ok_stopAudio: "refs_ok s \<Longrightarrow> stopAudio src s = Inr s' \<Longrightarrow> refs_ok s'"
  by (erule refs_ok_frame)
     (auto simp: stopAudio_def recorder_stop_def Let_def nth_update_any
           split: option.splits if_splits)

lemma refs_ok_ondataavailable: "refs_ok s \<Longrightarrow> refs_ok (ondataavailable k d s)"
  by (erule refs_ok_frame) (auto simp: ondataavailable_def Let_def)

lemma settle_frame:
  "captures (settle i r s) = captures s"
  "rendered (settle i r s) = rendered s"
  "requests (settle i r s) = requests s"
  "mediaRecorder (settle i r s) = mediaRecorder s"
  "mediaStream (settle i r s) = mediaStream s"
  "console (settle i r s) = console s"
  "length (promises (settle i r s)) = length (promises s)"
  by (simp_all add: settle_def then_callback_def Let_def
        split: promise.split option.split task.split)

lemma refs_ok_settle: "refs_ok s \<Longrightarrow> refs_ok (settle i r s)"
  by (simp add: refs_ok_def settle_frame)

lemma refs_ok_trackEnded: "refs_ok s \<Longrightarrow> trackEnded k i s = Inr s' \<Longrightarrow> refs_ok s'"
  by (erule refs_ok_frame)
     (auto simp: trackEnded_def onended_handler_def recorder_stop_def Let_def
           nth_update_any split: if_splits)

lemma refs_ok_step: "refs_ok s \<Longrightarrow> refs_ok (step e s)"
  by (cases e)
     (auto simp: step_def captureAudio_call_def refs_ok_on_answer refs_ok_ondataavailable
           refs_ok_settle
           intro: refs_ok_stopAudio refs_ok_trackEnded split: sum.splits)

lemma refs_ok_init: "refs_ok init"
  by (simp add: refs_ok_def init_def)

lemma refs_ok_run: "refs_ok s \<Longrightarrow> refs_ok (run es s)"
  by (induction es arbitrary: s) (simp_all add: refs_ok_step)

subsection \<open>\<^verbatim>\<open>stopAudio\<close>\<close>

lemma stopAudio_total: "\<exists>s1. stopAudio src s = Inr s1"
  by (simp add: stopAudio_def recorder_stop_def Let_def split: option.split)

lemma stop_twice:
  assumes "refs_ok s" and "stopAudio src s = Inr s1"
  shows "\<exists>s2. stopAudio src s1 = Inr s2 \<and> session_state s2 = session_state s1"
proof (cases "mediaRecorder s src")
  case None
  then show ?thesis using assms
    by (cases "mediaStream s src")
       (auto simp: stopAudio_def session_state_def recorder_stop_def Let_def refs_ok_def)
next
  case (Some k)
  then show ?thesis using assms
    by (cases "mediaStream s src")
       (auto simp: stopAudio_def session_state_def recorder_stop_def Let_def
          nth_list_update refs_ok_def split: if_splits)
qed

lemma stop_idle:
  assumes "mediaRecorder s src = None" and "mediaStream s src = None"
    and "stopAudio src s = Inr s1"
  shows "session_state s1 = session_state s"
  using assms by (auto simp: stopAudio_def session_state_def)

subsection \<open>The chunk buffers\<close>

lemma captureAudio_captures:
  "captures (snd (captureAudio src arr a s)) = captures s
   \<or> (\<exists>c. captures (snd (captureAudio src arr a s)) = captures s @ [c]
          \<and> owner c = src \<and> chunks c = arr)"
  by (cases a) (simp_all add: captureAudio_def recorder_start_def Let_def)



lemma on_answer_captures:
  "captures (on_answer n a s) = captures s
   \<or> (\<exists>c src arr. requests s ! n = Open src arr \<and> n < length (requests s)
          \<and> captures (on_answer n a s) = captures s @ [c] \<and> owner c = src \<and> chunks c = arr)"
proof (cases "n < length (requests s)")
  case True
  show ?thesis
  proof (cases "requests s ! n")
    case (Open src arr)
    with True captureAudio_captures [of src arr a "s\<lparr>requests := (requests s)[n := Closed]\<rparr>"]
    show ?thesis by (auto simp: on_answer_def)
  next
    case Closed
    with True show ?thesis by (simp add: on_answer_def)
  qed
next
  case False
  then show ?thesis by (simp add: on_answer_def)
qed



lemma stopAudio_chunks:
  "stopAudio src s = Inr s' \<Longrightarrow>
     length (captures s') = length (captures s)
     \<and> chunks (captures s' ! k) = chunks (captures s ! k)
     \<and> owner (captures s' ! k) = owner (captures s ! k)"
  by (auto simp: stopAudio_def recorder_stop_def Let_def nth_update_any
        split: option.splits if_splits)

lemma stopAudio_rendered:
  "stopAudio src s = Inr s' \<Longrightarrow> rendered s' = rendered s \<and> requests s' = requests s"
  by (auto simp: stopAudio_def recorder_stop_def Let_def split: option.splits if_splits)

lemma trackEnded_chunks:
  "trackEnded j i s = Inr s' \<Longrightarrow>
     length (captures s') = length (captures s)
     \<and> chunks (captures s' ! k) = chunks (captures s ! k)
     \<and> owner (captures s' ! k) = owner (captures s ! k)"
  by (auto simp: trackEnded_def onended_handler_def recorder_stop_def Let_def nth_update_any
        split: if_splits)

lemma trackEnded_rendered:
  "trackEnded j i s = Inr s' \<Longrightarrow> rendered s' = rendered s \<and> requests s' = requests s"
  by (auto simp: trackEnded_def onended_handler_def recorder_stop_def Let_def split: if_splits)

lemma ondataavailable_frame:
  "captures (ondataavailable k d s) = captures s"
  "requests (ondataavailable k d s) = requests s"
  "mediaRecorder (ondataavailable k d s) = mediaRecorder s"
  "mediaStream (ondataavailable k d s) = mediaStream s"
  by (simp_all add: ondataavailable_def Let_def)

lemma ondataavailable_rendered:
  "rendered (ondataavailable k d s) =
     (rendered s)
       (owner (captures s ! k) :=
          (rendered s (owner (captures s ! k)))
            [chunks (captures s ! k) :=
               (if length (rendered s (owner (captures s ! k)) ! chunks (captures s ! k)) > 1
                then butlast (rendered s (owner (captures s ! k)) ! chunks (captures s ! k))
                else rendered s (owner (captures s ! k)) ! chunks (captures s ! k)) @ [d] ])"
  by (simp add: ondataavailable_def Let_def)

text \<open>Captures keep their owner and their array; the list of captures only grows.\<close>

lemma captures_step:
  "length (captures s) \<le> length (captures (step e s))"
  "k < length (captures s) \<Longrightarrow>
     owner (captures (step e s) ! k) = owner (captures s ! k)
     \<and> chunks (captures (step e s) ! k) = chunks (captures s ! k)"
proof -
  show "length (captures s) \<le> length (captures (step e s))"
  proof (cases e)
    case (Answer n a)
    then show ?thesis using on_answer_captures [of n a s] by (auto simp: step_def)
  next
    case (Stop src)
    then show ?thesis using stopAudio_chunks [of src s]
      by (cases "stopAudio src s") (auto simp: step_def)
  next
    case (TrackEnded j i)
    then show ?thesis using trackEnded_chunks [of j i s]
      by (cases "trackEnded j i s") (auto simp: step_def)
  qed (simp_all add: step_def captureAudio_call_def ondataavailable_frame settle_frame)
  assume k: "k < length (captures s)"
  show "owner (captures (step e s) ! k) = owner (captures s ! k)
        \<and> chunks (captures (step e s) ! k) = chunks (captures s ! k)"
  proof (cases e)
    case (Answer n a)
    then show ?thesis using k on_answer_captures [of n a s] by (auto simp: step_def nth_append)
  next
    case (Stop src)
    then show ?thesis using stopAudio_chunks [of src s _ k]
      by (cases "stopAudio src s") (auto simp: step_def)
  next
    case (TrackEnded j i)
    then show ?thesis using trackEnded_chunks [of j i s _ k]
      by (cases "trackEnded j i s") (auto simp: step_def)
  qed (simp_all add: step_def captureAudio_call_def ondataavailable_frame settle_frame)
qed






lemma captures_new:
  "length (captures (step e s)) = length (captures s) \<or> (\<exists>n a. e = Answer n a)"
proof (cases e)
  case (Stop src)
  then show ?thesis using stopAudio_chunks [of src s]
    by (cases "stopAudio src s") (auto simp: step_def)
next
  case (TrackEnded j i)
  then show ?thesis using trackEnded_chunks [of j i s]
    by (cases "trackEnded j i s") (auto simp: step_def)
qed (simp_all add: step_def captureAudio_call_def ondataavailable_frame settle_frame)









subsection \<open>The module-level transcript variables\<close>

lemma is_first_settled: "is_first (Settled t) = is_first (Pending t)"
  by (cases t) simp_all

lemma filter_update_same:
  "i < length xs \<Longrightarrow> P y = P (xs ! i) \<Longrightarrow>
     length (filter P (xs[i := y])) = length (filter P xs)"
  by (induction xs arbitrary: i) (auto split: nat.splits)

lemma settle_first_count:
  "length (filter is_first (promises (settle i r s))) = length (filter is_first (promises s))"
  by (auto simp: settle_def then_callback_def Let_def filter_update_same is_first_settled
        split: promise.split option.split task.split)

lemma settle_iteration: "transcriptionIteration (settle i r s) = transcriptionIteration s"
  by (simp add: settle_def then_callback_def Let_def
        split: promise.split option.split task.split)

lemma captureAudio_transcript:
  "transcript (snd (captureAudio src arr a s)) = transcript s"
  "promises (snd (captureAudio src arr a s)) = promises s"
  by (cases a; simp add: captureAudio_def recorder_start_def Let_def transcript_def)+

lemma on_answer_transcript:
  "transcript (on_answer n a s) = transcript s"
  "promises (on_answer n a s) = promises s"
proof -
  have t: "transcript (s\<lparr>requests := r\<rparr>) = transcript s" for r
    by (simp add: transcript_def)
  show "transcript (on_answer n a s) = transcript s"
    by (simp add: on_answer_def captureAudio_transcript t split: request.split)
  show "promises (on_answer n a s) = promises s"
    by (simp add: on_answer_def captureAudio_transcript split: request.split)
qed

lemma stopAudio_transcript:
  "stopAudio src s = Inr s' \<Longrightarrow> transcript s' = transcript s \<and> promises s' = promises s"
  by (auto simp: stopAudio_def recorder_stop_def Let_def transcript_def
        split: option.splits if_splits)

lemma trackEnded_transcript:
  "trackEnded k i s = Inr s' \<Longrightarrow> transcript s' = transcript s \<and> promises s' = promises s"
  by (auto simp: trackEnded_def onended_handler_def recorder_stop_def Let_def transcript_def
        split: if_splits)

lemma step_transcript:
  "transcript (step (Click src) s) = transcript s"
  "promises (step (Click src) s) = promises s"
  "transcript (step (Answer n a) s) = transcript s"
  "promises (step (Answer n a) s) = promises s"
  "transcript (step (Stop src) s) = transcript s"
  "promises (step (Stop src) s) = promises s"
  "transcript (step (Render src) s) = transcript s"
  "promises (step (Render src) s) = promises s"
  "transcript (step (TrackEnded k i) s) = transcript s"
  "promises (step (TrackEnded k i) s) = promises s"
proof -
  show "transcript (step (Click src) s) = transcript s"
    and "promises (step (Click src) s) = promises s"
    and "transcript (step (Render src) s) = transcript s"
    and "promises (step (Render src) s) = promises s"
    by (simp_all add: step_def captureAudio_call_def transcript_def)
  show "transcript (step (Answer n a) s) = transcript s"
    and "promises (step (Answer n a) s) = promises s"
    by (simp_all add: step_def on_answer_transcript)
  show "transcript (step (Stop src) s) = transcript s"
    and "promises (step (Stop src) s) = promises s"
    by (cases "stopAudio src s"; simp add: step_def stopAudio_transcript)+
  show "transcript (step (TrackEnded k i) s) = transcript s"
    and "promises (step (TrackEnded k i) s) = promises s"
    by (cases "trackEnded k i s"; simp add: step_def trackEnded_transcript)+
qed

lemma transcript_iteration:
  "transcript s' = transcript s \<Longrightarrow> transcriptionIteration s' = transcriptionIteration s"
  by (simp add: transcript_def)

lemma iteration_step: "transcriptionIteration s \<le> transcriptionIteration (step e s)"
proof (cases e)
  case (DataAvailable k d)
  then show ?thesis by (simp add: step_def ondataavailable_def Let_def)
next
  case (Settle i r)
  then show ?thesis by (simp add: step_def settle_iteration)
qed (simp_all add: transcript_iteration [OF step_transcript(1)]
       transcript_iteration [OF step_transcript(3)] transcript_iteration [OF step_transcript(5)]
       transcript_iteration [OF step_transcript(7)] transcript_iteration [OF step_transcript(9)])

text \<open>The first-merge branch has run at most once, and not at all while the counter is 0.\<close>

lemma first_once_step:
  assumes "length (filter is_first (promises s)) \<le> 1"
    and "transcriptionIteration s = 0 \<longrightarrow> filter is_first (promises s) = []"
  shows "length (filter is_first (promises (step e s))) \<le> 1 \<and>
         (transcriptionIteration (step e s) = 0 \<longrightarrow> filter is_first (promises (step e s)) = [])"
proof (cases e)
  case (DataAvailable k d)
  then show ?thesis using assms by (auto simp: step_def ondataavailable_def Let_def)
next
  case (Settle i r)
  have "filter is_first (promises (settle i r s)) = []" if "filter is_first (promises s) = []"
    using settle_first_count [of i r s] that by simp
  then show ?thesis using Settle assms
    by (simp add: step_def settle_first_count settle_iteration)
qed (use assms in \<open>simp_all add: step_transcript transcript_iteration [OF step_transcript(1)]
       transcript_iteration [OF step_transcript(3)] transcript_iteration [OF step_transcript(5)]
       transcript_iteration [OF step_transcript(7)] transcript_iteration [OF step_transcript(9)]\<close>)

lemma first_once_run:
  assumes "length (filter is_first (promises s)) \<le> 1"
    and "transcriptionIteration s = 0 \<longrightarrow> filter is_first (promises s) = []"
  shows "length (filter is_first (promises (run es s))) \<le> 1 \<and>
         (transcriptionIteration (run es s) = 0 \<longrightarrow> filter is_first (promises (run es s)) = [])"
  using assms
proof (induction es arbitrary: s)
  case Nil
  then show ?case by simp
next
  case (Cons e es)
  from first_once_step [OF Cons.prems, of e]
  have a: "length (filter is_first (promises (step e s))) \<le> 1"
    and b: "transcriptionIteration (step e s) = 0 \<longrightarrow>
            filter is_first (promises (step e s)) = []" by simp_all
  from Cons.IH [OF a b] show ?case by simp
qed

lemma first_count_step:
  assumes "0 < transcriptionIteration s"
  shows "length (filter is_first (promises (step e s))) = length (filter is_first (promises s))"
proof (cases e)
  case (DataAvailable k d)
  then show ?thesis using assms by (auto simp: step_def ondataavailable_def Let_def)
next
  case (Settle i r)
  then show ?thesis by (simp add: step_def settle_first_count)
qed (simp_all add: step_transcript)

subsection \<open>What an instance owns\<close>

lemma captures_of_frame:
  assumes len: "length (captures s) \<le> length (captures s')"
    and new: "\<And>k. length (captures s) \<le> k \<Longrightarrow> k < length (captures s') \<Longrightarrow>
                owner (captures s' ! k) \<noteq> B"
    and old: "\<And>k. k < length (captures s) \<Longrightarrow>
                captures s' ! k = captures s ! k
                \<or> (owner (captures s' ! k) \<noteq> B \<and> owner (captures s ! k) \<noteq> B)"
  shows "captures_of B s' = captures_of B s"
proof (rule ext)
  fix k
  show "captures_of B s' k = captures_of B s k"
  proof (cases "k < length (captures s)")
    case True
    with len old [OF True] show ?thesis by (auto simp: captures_of_def)
  next
    case False
    with new [of k] show ?thesis by (auto simp: captures_of_def)
  qed
qed

lemma captureAudio_other:
  assumes "A \<noteq> B"
  shows "instance_state B (snd (captureAudio A arr a s)) = instance_state B s"
proof -
  have "captures_of B (snd (captureAudio A arr a s)) = captures_of B s"
    using assms captureAudio_captures [of A arr a s]
    by (intro captures_of_frame) (auto simp: nth_append)
  moreover have "mediaRecorder (snd (captureAudio A arr a s)) B = mediaRecorder s B"
    and "mediaStream (snd (captureAudio A arr a s)) B = mediaStream s B"
    and "rendered (snd (captureAudio A arr a s)) B = rendered s B"
    using assms
    by (cases a; simp add: captureAudio_def recorder_start_def Let_def)+
  ultimately show ?thesis by (simp add: instance_state_def)
qed

lemma instance_state_requests:
  "instance_state B (s\<lparr>requests := r\<rparr>) = instance_state B s"
  by (simp add: instance_state_def captures_of_def fun_eq_iff)

lemma on_answer_other:
  assumes "n < length (requests s) \<longrightarrow> opened_by (requests s ! n) \<noteq> Some B"
  shows "instance_state B (on_answer n a s) = instance_state B s"
proof (cases "n < length (requests s)")
  case True
  show ?thesis
  proof (cases "requests s ! n")
    case (Open A arr)
    with True assms have "A \<noteq> B" by auto
    with True Open show ?thesis
      by (simp add: on_answer_def captureAudio_other instance_state_requests)
  next
    case Closed
    with True show ?thesis by (simp add: on_answer_def)
  qed
next
  case False
  then show ?thesis by (simp add: on_answer_def)
qed

lemma stopAudio_other:
  assumes "A \<noteq> B" and "refs_ok s" and "stopAudio A s = Inr s'"
  shows "instance_state B s' = instance_state B s"
proof -
  have refs: "mediaRecorder s' = mediaRecorder s" "mediaStream s' = mediaStream s"
    using assms(3)
    by (auto simp: stopAudio_def recorder_stop_def Let_def split: option.splits if_splits)
  have "captures_of B s' = captures_of B s"
  proof (rule captures_of_frame)
    show "length (captures s) \<le> length (captures s')"
      using stopAudio_chunks [OF assms(3)] by simp
  next
    fix k assume "length (captures s) \<le> k" "k < length (captures s')"
    then show "owner (captures s' ! k) \<noteq> B"
      using stopAudio_chunks [OF assms(3)] by simp
  next
    fix k assume k: "k < length (captures s)"
    show "captures s' ! k = captures s ! k
          \<or> (owner (captures s' ! k) \<noteq> B \<and> owner (captures s ! k) \<noteq> B)"
    proof (cases "owner (captures s ! k) = A")
      case True
      then show ?thesis using assms(1) stopAudio_chunks [OF assms(3), of k] by simp
    next
      case False
      then have "mediaRecorder s A \<noteq> Some k" "mediaStream s A \<noteq> Some k"
        using assms(2) by (auto simp: refs_ok_def)
      then have "captures s' ! k = captures s ! k"
        using assms(3)
        by (auto simp: stopAudio_def recorder_stop_def Let_def nth_update_any
              split: option.splits if_splits)
      then show ?thesis by simp
    qed
  qed
  with refs stopAudio_rendered [OF assms(3)] show ?thesis by (simp add: instance_state_def)
qed

lemma ondataavailable_other:
  assumes "owner (captures s ! k) \<noteq> B"
  shows "instance_state B (ondataavailable k d s) = instance_state B s"
  using assms
  by (simp add: instance_state_def captures_of_def fun_eq_iff ondataavailable_frame
        ondataavailable_rendered)

lemma trackEnded_other:
  assumes "k < length (captures s) \<longrightarrow> owner (captures s ! k) \<noteq> B"
    and "trackEnded k i s = Inr s'"
  shows "instance_state B s' = instance_state B s"
proof -
  have refs: "mediaRecorder s' = mediaRecorder s" "mediaStream s' = mediaStream s"
    using assms(2)
    by (auto simp: trackEnded_def onended_handler_def recorder_stop_def Let_def
          split: if_splits)
  have "captures_of B s' = captures_of B s"
  proof (rule captures_of_frame)
    show "length (captures s) \<le> length (captures s')"
      using trackEnded_chunks [OF assms(2)] by simp
  next
    fix j assume "length (captures s) \<le> j" "j < length (captures s')"
    then show "owner (captures s' ! j) \<noteq> B"
      using trackEnded_chunks [OF assms(2)] by simp
  next
    fix j assume j: "j < length (captures s)"
    show "captures s' ! j = captures s ! j
          \<or> (owner (captures s' ! j) \<noteq> B \<and> owner (captures s ! j) \<noteq> B)"
    proof (cases "j = k")
      case True
      then show ?thesis using assms(1) j trackEnded_chunks [OF assms(2), of j] by simp
    next
      case False
      then have "captures s' ! j = captures s ! j"
        using assms(2)
        by (auto simp: trackEnded_def onended_handler_def recorder_stop_def Let_def
              nth_update_any split: if_splits)
      then show ?thesis by simp
    qed
  qed
  with refs trackEnded_rendered [OF assms(2)] show ?thesis by (simp add: instance_state_def)
qed

lemma settle_other: "instance_state B (settle i r s) = instance_state B s"
  by (simp add: instance_state_def captures_of_def settle_frame fun_eq_iff)

subsection \<open>Handlers and tracks of the Desktop captures\<close>

lemma onended_track_stop [simp]: "onended (track_stop t) = onended t"
  by (simp add: track_stop_def)

lemma stopAudio_refs:
  assumes "stopAudio src s = Inr s'"
  shows "mediaRecorder s' = mediaRecorder s" and "mediaStream s' = mediaStream s"
  using assms
  by (auto simp: stopAudio_def recorder_stop_def Let_def split: option.splits if_splits)

lemma trackEnded_refs:
  assumes "trackEnded j i s = Inr s'"
  shows "mediaRecorder s' = mediaRecorder s" and "mediaStream s' = mediaStream s"
  using assms
  by (auto simp: trackEnded_def onended_handler_def recorder_stop_def Let_def split: if_splits)

lemma stopAudio_tracks:
  assumes "stopAudio src s = Inr s'"
  shows "tracks (captures s' ! k) = tracks (captures s ! k)
         \<or> tracks (captures s' ! k) = map track_stop (tracks (captures s ! k))"
  using assms
  by (auto simp: stopAudio_def recorder_stop_def Let_def nth_update_any
        split: option.splits if_splits)

lemma trackEnded_tracks:
  assumes "trackEnded j i s = Inr s'"
  shows "tracks (captures s' ! k) = tracks (captures s ! k)
         \<or> tracks (captures s' ! k)
             = (tracks (captures s ! k))[i := track_stop (tracks (captures s ! k) ! i)]"
  using assms
  by (auto simp: trackEnded_def onended_handler_def recorder_stop_def Let_def nth_update_any
        split: if_splits)

text \<open>What an event does to the tracks of a capture: nothing, or it stops one or all.\<close>

lemma tracks_step:
  assumes "k < length (captures s)"
  shows "tracks (captures (step e s) ! k) = tracks (captures s ! k)
         \<or> tracks (captures (step e s) ! k) = map track_stop (tracks (captures s ! k))
         \<or> (\<exists>i. tracks (captures (step e s) ! k)
                  = (tracks (captures s ! k))[i := track_stop (tracks (captures s ! k) ! i)])"
proof (cases e)
  case (Answer n a)
  then show ?thesis using assms on_answer_captures [of n a s]
    by (auto simp: step_def nth_append)
next
  case (Stop src)
  then show ?thesis using stopAudio_tracks [of src s _ k]
    by (cases "stopAudio src s") (auto simp: step_def)
next
  case (TrackEnded j i)
  then show ?thesis using trackEnded_tracks [of j i s _ k]
    by (cases "trackEnded j i s") (auto simp: step_def)
qed (simp_all add: step_def captureAudio_call_def ondataavailable_frame settle_frame)

lemma refs_step:
  assumes "mediaStream s = mediaRecorder s"
  shows "mediaStream (step e s) = mediaRecorder (step e s)"
proof (cases e)
  case (Answer n a)
  have "mediaStream (snd (captureAudio src arr a t)) = mediaRecorder (snd (captureAudio src arr a t))"
    if "mediaStream t = mediaRecorder t" for src arr t
    using that by (cases a) (simp_all add: captureAudio_def recorder_start_def Let_def)
  with assms Answer show ?thesis
    by (simp add: step_def on_answer_def split: request.split)
next
  case (Stop src)
  then show ?thesis using assms stopAudio_refs [of src s]
    by (cases "stopAudio src s") (simp_all add: step_def)
next
  case (TrackEnded j i)
  then show ?thesis using assms trackEnded_refs [of j i s]
    by (cases "trackEnded j i s") (simp_all add: step_def)
qed (use assms in \<open>simp_all add: step_def captureAudio_call_def ondataavailable_frame settle_frame\<close>)

text \<open>The capture that an answer creates.\<close>

lemma on_answer_new:
  assumes "length (captures (on_answer n a s)) \<noteq> length (captures s)"
  shows "\<exists>src arr kinds. n < length (requests s) \<and> requests s ! n = Open src arr \<and> a = Inr kinds
           \<and> captures (on_answer n a s) =
               captures s @
               [\<lparr>owner = src,
                 tracks = (if src = Desktop
                           then map (\<lambda>t. t\<lparr>onended := True\<rparr>)
                                  (map (\<lambda>t. if kind t = video then track_stop t else t)
                                     (map (\<lambda>kd. \<lparr>kind = kd, readyState = live, onended = False\<rparr>)
                                        kinds))
                           else map (\<lambda>kd. \<lparr>kind = kd, readyState = live, onended = False\<rparr>) kinds),
                 rstate = recording, chunks = arr\<rparr>]"
proof (cases "n < length (requests s)")
  case True
  show ?thesis
  proof (cases "requests s ! n")
    case (Open src arr)
    show ?thesis
    proof (cases a)
      case (Inl err)
      with True Open assms show ?thesis by (simp add: on_answer_def captureAudio_def)
    next
      case (Inr kinds)
      with True Open show ?thesis
        by (simp add: on_answer_def captureAudio_def recorder_start_def Let_def)
    qed
  next
    case Closed
    with True assms show ?thesis by (simp add: on_answer_def)
  qed
next
  case False
  with assms show ?thesis by (simp add: on_answer_def)
qed

lemma onended_update_one:
  assumes "t \<in> set (ts[i := track_stop (ts ! i)])" and "\<forall>u \<in> set ts. onended u"
  shows "onended t"
proof -
  from assms(1) obtain j where j: "j < length ts" "t = ts[i := track_stop (ts ! i)] ! j"
    by (auto simp: in_set_conv_nth)
  with assms(2) show ?thesis by (cases "i = j") simp_all
qed

lemma handlers_ok_step:
  assumes "handlers_ok s"
  shows "handlers_ok (step e s)"
  unfolding handlers_ok_def
proof (intro conjI allI impI ballI)
  show "mediaStream (step e s) = mediaRecorder (step e s)"
    using assms by (intro refs_step) (simp add: handlers_ok_def)
next
  fix k t
  assume k: "k < length (captures (step e s))"
    and own: "owner (captures (step e s) ! k) = Desktop"
    and t: "t \<in> set (tracks (captures (step e s) ! k))"
  show "onended t"
  proof (cases "k < length (captures s)")
    case True
    with own captures_step(2) [OF True, of e] assms
    have old: "\<forall>u \<in> set (tracks (captures s ! k)). onended u"
      by (simp add: handlers_ok_def)
    from tracks_step [OF True, of e] t old show ?thesis
      by (auto dest: onended_update_one)
  next
    case False
    with k captures_new [of e s] obtain n a where e: "e = Answer n a" by auto
    with False k have "length (captures (on_answer n a s)) \<noteq> length (captures s)"
      by (auto simp: step_def)
    from on_answer_new [OF this] obtain src arr kinds c
      where c: "captures (on_answer n a s) = captures s @ [c]" "owner c = src"
        "tracks c = (if src = Desktop
                     then map (\<lambda>t. t\<lparr>onended := True\<rparr>)
                            (map (\<lambda>t. if kind t = video then track_stop t else t)
                               (map (\<lambda>kd. \<lparr>kind = kd, readyState = live, onended = False\<rparr>)
                                  kinds))
                     else map (\<lambda>kd. \<lparr>kind = kd, readyState = live, onended = False\<rparr>) kinds)"
      by auto
    from c(1) k False e have "captures (step e s) ! k = c" by (simp add: step_def nth_append)
    with own t c(2,3) show ?thesis by auto
  qed
qed

lemma handlers_ok_init: "handlers_ok init"
  by (simp add: handlers_ok_def init_def)

lemma handlers_ok_run: "handlers_ok s \<Longrightarrow> handlers_ok (run es s)"
  by (induction es arbitrary: s) (simp_all add: handlers_ok_step)

lemma live_fresh:
  "length (filter (\<lambda>t. readyState t = live)
     (map (\<lambda>t. t\<lparr>onended := True\<rparr>)
        (map (\<lambda>t. if kind t = video then track_stop t else t)
           (map (\<lambda>kd. \<lparr>kind = kd, readyState = live, onended = False\<rparr>) kinds))))
   = length (filter (\<lambda>kd. kd = audio) kinds)"
proof (induction kinds)
  case Nil
  then show ?case by simp
next
  case (Cons kd kinds)
  then show ?case by (cases kd) (simp_all add: track_stop_def)
qed

lemma live_stop_all: "filter (\<lambda>t. readyState t = live) (map track_stop ts) = []"
  by (induction ts) (simp_all add: track_stop_def)

lemma live_stop_one:
  "length (filter (\<lambda>t. readyState t = live) (ts[i := track_stop (ts ! i)]))
     \<le> length (filter (\<lambda>t. readyState t = live) ts)"
proof (induction ts arbitrary: i)
  case Nil
  then show ?case by simp
next
  case (Cons t ts)
  show ?case
  proof (cases i)
    case 0
    then show ?thesis by (simp add: track_stop_def)
  next
    case (Suc j)
    with Cons.IH [of j] show ?thesis by simp
  qed
qed

lemma one_live_step:
  assumes "one_live s" and "display_answer s e"
  shows "one_live (step e s)"
  unfolding one_live_def
proof (intro allI impI)
  fix k
  assume k: "k < length (captures (step e s))"
    and own: "owner (captures (step e s) ! k) = Desktop"
  show "length (filter (\<lambda>t. readyState t = live) (tracks (captures (step e s) ! k))) \<le> 1"
  proof (cases "k < length (captures s)")
    case True
    with own captures_step(2) [OF True, of e] assms(1)
    have old: "length (filter (\<lambda>t. readyState t = live) (tracks (captures s ! k))) \<le> 1"
      by (simp add: one_live_def)
    from tracks_step [OF True, of e] show ?thesis
    proof (elim disjE exE)
      assume "tracks (captures (step e s) ! k) = tracks (captures s ! k)"
      with old show ?thesis by simp
    next
      assume "tracks (captures (step e s) ! k) = map track_stop (tracks (captures s ! k))"
      then show ?thesis by (simp add: live_stop_all)
    next
      fix i
      assume "tracks (captures (step e s) ! k)
                = (tracks (captures s ! k))[i := track_stop (tracks (captures s ! k) ! i)]"
      with old live_stop_one [of "tracks (captures s ! k)" i] show ?thesis by simp
    qed
  next
    case False
    with k captures_new [of e s] obtain n a where e: "e = Answer n a" by auto
    with False k have "length (captures (on_answer n a s)) \<noteq> length (captures s)"
      by (auto simp: step_def)
    from on_answer_new [OF this] obtain src arr kinds c
      where r: "n < length (requests s)" "requests s ! n = Open src arr" "a = Inr kinds"
        and c: "captures (on_answer n a s) = captures s @ [c]" "owner c = src"
        "tracks c = (if src = Desktop
                     then map (\<lambda>t. t\<lparr>onended := True\<rparr>)
                            (map (\<lambda>t. if kind t = video then track_stop t else t)
                               (map (\<lambda>kd. \<lparr>kind = kd, readyState = live, onended = False\<rparr>)
                                  kinds))
                     else map (\<lambda>kd. \<lparr>kind = kd, readyState = live, onended = False\<rparr>) kinds)"
      by auto
    from c(1) k False e have kc: "captures (step e s) ! k = c" by (simp add: step_def nth_append)
    with own c(2) have d: "src = Desktop" by simp
    with assms(2) e r have "length (filter (\<lambda>kd. kd = audio) kinds) \<le> 1"
      by (simp add: display_answer_def)
    moreover from c(3) d have "tracks c =
        map (\<lambda>t. t\<lparr>onended := True\<rparr>)
          (map (\<lambda>t. if kind t = video then track_stop t else t)
             (map (\<lambda>kd. \<lparr>kind = kd, readyState = live, onended = False\<rparr>) kinds))"
      by (simp only: simp_thms if_True)
    then have "length (filter (\<lambda>t. readyState t = live) (tracks c))
               = length (filter (\<lambda>kd. kd = audio) kinds)"
      by (simp only: live_fresh)
    ultimately show ?thesis using kc by (simp only:)
  qed
qed

lemma one_live_run: "one_live s \<Longrightarrow> display_contract es s \<Longrightarrow> one_live (run es s)"
  by (induction es arbitrary: s) (simp_all add: one_live_step)

lemma one_live_init: "one_live init"
  by (simp add: one_live_def init_def)

lemma only_live:
  assumes "length (filter P ts) \<le> 1" and "i < length ts" and "P (ts ! i)"
    and "j < length ts" and "j \<noteq> i"
  shows "\<not> P (ts ! j)"
  using assms
proof (induction ts arbitrary: i j)
  case Nil
  then show ?case by simp
next
  case (Cons t ts)
  show ?case
  proof (cases i)
    case 0
    with Cons.prems have "filter P ts = []" by (simp split: if_splits)
    moreover from 0 Cons.prems obtain j' where "j = Suc j'" "j' < length ts"
      by (cases j) auto
    ultimately show ?thesis by (auto simp: filter_empty_conv)
  next
    case (Suc i')
    with Cons.prems have pi: "P (ts ! i')" "i' < length ts" by simp_all
    then have ne: "filter P ts \<noteq> []" by (auto simp: filter_empty_conv)
    show ?thesis
    proof (cases j)
      case 0
      with Cons.prems(1) ne show ?thesis by (cases "filter P ts") (auto split: if_splits)
    next
      case (Suc j')
      with Cons.prems \<open>i = Suc i'\<close> have "length (filter P ts) \<le> 1" "j' < length ts" "j' \<noteq> i'"
        by (simp_all split: if_splits)
      from Cons.IH [OF this(1) pi(2) pi(1) this(2,3)] Suc show ?thesis by simp
    qed
  qed
qed

lemma stop_all_is_stop_one:
  assumes "i < length ts"
    and "\<forall>j<length ts. j \<noteq> i \<longrightarrow> readyState (ts ! j) = ended"
  shows "map track_stop ts = ts[i := track_stop (ts ! i)]"
proof (rule nth_equalityI)
  show "length (map track_stop ts) = length (ts[i := track_stop (ts ! i)])" by simp
next
  fix j assume "j < length (map track_stop ts)"
  then have j: "j < length ts" by simp
  show "map track_stop ts ! j = ts[i := track_stop (ts ! i)] ! j"
  proof (cases "j = i")
    case True
    with j show ?thesis by simp
  next
    case False
    with assms(2) j have "readyState (ts ! j) = ended" by simp
    then have "track_stop (ts ! j) = ts ! j" by (simp add: track_stop_def)
    with False j show ?thesis by simp
  qed
qed

lemma capture_update_order:
  "c\<lparr>rstate := r, tracks := t\<rparr> = c\<lparr>tracks := t, rstate := r\<rparr>"
  by (cases c) simp

lemma trackEnded_recording:
  assumes "k < length (captures s)" and "rstate (captures s ! k) = recording"
    and "i < length (tracks (captures s ! k))"
    and "readyState (tracks (captures s ! k) ! i) = live"
    and "onended (tracks (captures s ! k) ! i)"
  shows "trackEnded k i s =
           Inr (s\<lparr>captures := (captures s)
                  [k := (captures s ! k)
                     \<lparr>tracks := (tracks (captures s ! k))
                                  [i := track_stop (tracks (captures s ! k) ! i)],
                      rstate := inactive\<rparr>]\<rparr>)"
  using assms
  by (simp add: trackEnded_def onended_handler_def recorder_stop_def Let_def)

lemma stopAudio_recording:
  assumes "mediaRecorder s src = Some k" and "mediaStream s src = Some k"
    and "k < length (captures s)" and "rstate (captures s ! k) = recording"
  shows "stopAudio src s =
           Inr (s\<lparr>captures := (captures s)
                  [k := (captures s ! k)
                     \<lparr>tracks := map track_stop (tracks (captures s ! k)),
                      rstate := inactive\<rparr>],
                  console := console s @ [LogText ''should stop'', LogText ''SHOULD STOP'']\<rparr>)"
  using assms by (simp add: stopAudio_def recorder_stop_def Let_def capture_update_order)

lemma stopAudio_stopped:
  assumes "mediaRecorder s src = Some k" and "mediaStream s src = Some k"
    and "k < length (captures s)" and "rstate (captures s ! k) = inactive"
    and "\<forall>t \<in> set (tracks (captures s ! k)). readyState t = ended"
  shows "\<exists>s3. stopAudio src s = Inr s3 \<and> session_state s3 = session_state s"
proof -
  have "map track_stop (tracks (captures s ! k)) = tracks (captures s ! k)"
    using assms(5) by (simp add: map_idI track_stop_def)
  then show ?thesis using assms(1-4)
    by (simp add: stopAudio_def Let_def session_state_def)
qed

section \<open>The claims\<close>

text \<open>
  C6, as the code has it. When the device layer answers \<^verbatim>\<open>getMediaStream()\<close> with an
  error (permission denied, no device), \<^verbatim>\<open>captureAudio\<close> creates no recorder and
  changes no session state; the \<^verbatim>\<open>catch\<close> block prints the error with
  \<^verbatim>\<open>console.log\<close> and \<^verbatim>\<open>captureAudio\<close> completes normally, so the caller receives no
  error. Of the click and the answer together nothing is left but the answered call
  and the line on the console.
\<close>

theorem start_denied_logged:
  "captureAudio src arr (Inl err) s = (Inr (), s\<lparr>console := console s @ [LogError err]\<rparr>) \<and>
   session_state (snd (captureAudio src arr (Inl err) s)) = session_state s \<and>
   step (Answer (length (requests s)) (Inl err)) (step (Click src) s)
     = s\<lparr>requests := requests s @ [Closed], console := console s @ [LogError err]\<rparr>"
  by (simp add: captureAudio_def session_state_def step_def captureAudio_call_def on_answer_def)

text \<open>
  C6, as the claim states it, fails: with permission denied on the first call of the
  process, what the caller of \<^verbatim>\<open>captureAudio\<close> receives is not the error.
\<close>

theorem start_denied_not_propagated:
  "fst (captureAudio Microphone 0 (Inl NotAllowedError) init) \<noteq> Inl NotAllowedError"
  by (simp add: captureAudio_def)

text \<open>
  C7. In every state the process can reach, \<^verbatim>\<open>stopAudio\<close> returns normally (it never
  throws, whatever happened before), a second call in succession leaves the session
  state as the first call left it, and a call on an instance that has no recorder and
  no stream yet changes no session state.
\<close>

theorem stop_idempotent_total:
  "\<exists>s1 s2. stopAudio src (run es init) = Inr s1 \<and> stopAudio src s1 = Inr s2 \<and>
      session_state s2 = session_state s1 \<and>
      (mediaRecorder (run es init) src = None \<and> mediaStream (run es init) src = None
         \<longrightarrow> session_state s1 = session_state (run es init))"
proof -
  obtain s1 where s1: "stopAudio src (run es init) = Inr s1"
    using stopAudio_total by blast
  have "refs_ok (run es init)"
    by (rule refs_ok_run [OF refs_ok_init])
  from stop_twice [OF this s1] obtain s2
    where "stopAudio src s1 = Inr s2" "session_state s2 = session_state s1" by blast
  moreover have "mediaRecorder (run es init) src = None \<and> mediaStream (run es init) src = None
      \<longrightarrow> session_state s1 = session_state (run es init)"
    using stop_idle [of "run es init" src s1] s1 by simp
  ultimately show ?thesis using s1 by (intro exI [of _ s1] exI [of _ s2]) simp
qed

theorem stop_idempotent_total_witness:
  "mediaRecorder (run [] init) Microphone = None \<and>
   mediaStream (run [] init) Microphone = None \<and>
   (\<exists>s1 s2. stopAudio Microphone (run [] init) = Inr s1 \<and> stopAudio Microphone s1 = Inr s2 \<and>
      session_state s2 = session_state s1 \<and> session_state s1 = session_state (run [] init))"
  using stop_idempotent_total [of Microphone "[]"] by (simp add: init_def)

text \<open>
  C9. When a merge callback of the \<^verbatim>\<open>transcriptionIteration > 0\<close> branch receives a
  text no longer than \<^verbatim>\<open>firstString\<close>, the slice is the empty string, the callback
  appends nothing, and \<^verbatim>\<open>transcriptionText\<close> (and every other variable) is
  left as it was; the promise is settled and no error arises.
\<close>

theorem short_result_appends_nothing:
  assumes "i < length (promises s)" and "promises s ! i = Pending (TAppend b)"
    and "length text \<le> length (firstString s)"
  shows "slice text (int (length (firstString s))) (int (length text)) = [] \<and>
         settle i (Some text) s = s\<lparr>promises := (promises s)[i := Settled (TAppend b)]\<rparr> \<and>
         transcriptionText (settle i (Some text) s) = transcriptionText s"
  using assms by (simp add: settle_def then_callback_def slice_short trim_Nil)

theorem short_result_appends_nothing_witness:
  "1 < length (promises (run [Click Microphone, Answer 0 (Inr [audio]), DataAvailable 0 [1],
                              Settle 0 (Some (js ''Hello world''))] init)) \<and>
   promises (run [Click Microphone, Answer 0 (Inr [audio]), DataAvailable 0 [1],
                  Settle 0 (Some (js ''Hello world''))] init) ! 1
     = Pending (TAppend (Blob [ [1] ])) \<and>
   length (js ''Hello'')
     \<le> length (firstString (run [Click Microphone, Answer 0 (Inr [audio]), DataAvailable 0 [1],
                                 Settle 0 (Some (js ''Hello world''))] init)) \<and>
   transcriptionText (settle 1 (Some (js ''Hello''))
      (run [Click Microphone, Answer 0 (Inr [audio]), DataAvailable 0 [1],
            Settle 0 (Some (js ''Hello world''))] init)) = []"
  using short_result_appends_nothing
    [of 1 "run [Click Microphone, Answer 0 (Inr [audio]), DataAvailable 0 [1],
                Settle 0 (Some (js ''Hello world''))] init" "Blob [ [1] ]" "js ''Hello''"]
  by (simp add: run_simps)



text \<open>
  C10. \<^verbatim>\<open>transcriptionIteration\<close> is a variable of the module, and no event ever
  lowers it: once positive it stays positive. So the branch
  \<^verbatim>\<open>transcriptionIteration === 0\<close>, the only place that issues the call whose callback
  sets \<^verbatim>\<open>firstString\<close>, has run at most once in every reachable state, and never runs
  again once the counter is positive. Starting a capture, on either instance, leaves
  \<^verbatim>\<open>firstString\<close>, \<^verbatim>\<open>transcriptionText\<close> and \<^verbatim>\<open>transcriptionIteration\<close> as the earlier
  sessions left them, and so does every chunk arrival once the counter is positive.
\<close>

theorem iteration_global_never_reset:
  "let s = run es init
   in transcriptionIteration s \<le> transcriptionIteration (step e s) \<and>
      (0 < transcriptionIteration s \<longrightarrow> 0 < transcriptionIteration (step e s)) \<and>
      length (filter is_first (promises s)) \<le> 1 \<and>
      (0 < transcriptionIteration s \<longrightarrow>
         length (filter is_first (promises (step e s))) = length (filter is_first (promises s))) \<and>
      transcript (snd (captureAudio src arr a s)) = transcript s \<and>
      (0 < transcriptionIteration s \<longrightarrow>
         transcript (step (DataAvailable k d) s) = transcript s)"
proof -
  have mono: "transcriptionIteration (run es init) \<le> transcriptionIteration (step e (run es init))"
    by (rule iteration_step)
  have once: "length (filter is_first (promises (run es init))) \<le> 1"
    using first_once_run [of init es] by (simp add: init_def)
  have keep: "transcript (step (DataAvailable k d) (run es init)) = transcript (run es init)"
    if "0 < transcriptionIteration (run es init)"
    using that by (simp add: step_def ondataavailable_def Let_def transcript_def)
  show ?thesis
    unfolding Let_def using mono once first_count_step [of "run es init" e] keep
    by (auto simp: captureAudio_transcript)
qed

theorem iteration_global_never_reset_witness:
  "0 < transcriptionIteration (run [Click Microphone, Answer 0 (Inr [audio]), DataAvailable 0 [1],
                                     Settle 0 (Some (js ''Hello'')), Stop Microphone] init) \<and>
   0 < transcriptionIteration (step (DataAvailable 0 [2])
         (run [Click Microphone, Answer 0 (Inr [audio]), DataAvailable 0 [1],
               Settle 0 (Some (js ''Hello'')), Stop Microphone] init)) \<and>
   length (filter is_first (promises (step (DataAvailable 0 [2])
         (run [Click Microphone, Answer 0 (Inr [audio]), DataAvailable 0 [1],
               Settle 0 (Some (js ''Hello'')), Stop Microphone] init)))) = 1 \<and>
   transcript (snd (captureAudio Desktop 0 (Inr [video, audio])
         (run [Click Microphone, Answer 0 (Inr [audio]), DataAvailable 0 [1],
               Settle 0 (Some (js ''Hello'')), Stop Microphone] init))) = (js ''Hello'', [], 1) \<and>
   transcript (step (DataAvailable 1 [7])
         (run [Click Microphone, Answer 0 (Inr [audio]), DataAvailable 0 [1],
               Settle 0 (Some (js ''Hello'')), Stop Microphone,
               Click Desktop, Answer 1 (Inr [video, audio])] init)) = (js ''Hello'', [], 1)"
  using iteration_global_never_reset
    [of "[Click Microphone, Answer 0 (Inr [audio]), DataAvailable 0 [1],
          Settle 0 (Some (js ''Hello'')), Stop Microphone]" "DataAvailable 0 [2]"
        Desktop 0 "Inr [video, audio]" 0 "[2]"]
  by (simp add: run_simps transcript_def)

text \<open>
  C1, as the code has it. What the two instances do not share is their own state: the
  React state \<^verbatim>\<open>mediaRecorder\<close> and \<^verbatim>\<open>mediaStream\<close> of an instance, the \<^verbatim>\<open>chunks\<close>
  arrays of its renders, and the recorder, tracks and chunk buffer of every capture it
  created are left unchanged by every
  event that is not an operation of that instance (a button or handler of the other
  instance, or the completion of any service call). The transcript variables are not
  part of that state: they belong to the module.
\<close>

theorem instances_share_only_transcript:
  assumes "operation_of (run es init) e \<noteq> Some B"
  shows "instance_state B (step e (run es init)) = instance_state B (run es init)"
proof -
  define s where "s = run es init"
  have ok: "refs_ok s" unfolding s_def by (rule refs_ok_run [OF refs_ok_init])
  have op: "operation_of s e \<noteq> Some B" using assms by (simp add: s_def)
  have "instance_state B (step e s) = instance_state B s"
  proof (cases e)
    case (Click A)
    then show ?thesis
      by (simp add: step_def captureAudio_call_def instance_state_requests)
  next
    case (Answer n a)
    with op have "n < length (requests s) \<longrightarrow> opened_by (requests s ! n) \<noteq> Some B"
      by (simp add: operation_of_def split: if_splits)
    with Answer show ?thesis by (simp add: step_def on_answer_other)
  next
    case (Stop A)
    with op have "A \<noteq> B" by (simp add: operation_of_def)
    then show ?thesis using Stop stopAudio_other [OF _ ok, of A B]
      by (cases "stopAudio A s") (simp_all add: step_def)
  next
    case (Render A)
    with op have "A \<noteq> B" by (simp add: operation_of_def)
    with Render show ?thesis
      by (simp add: step_def instance_state_def captures_of_def fun_eq_iff)
  next
    case (DataAvailable k d)
    with op show ?thesis
      by (simp add: step_def operation_of_def ondataavailable_other split: if_splits)
  next
    case (TrackEnded k i)
    with op have "k < length (captures s) \<longrightarrow> owner (captures s ! k) \<noteq> B"
      by (simp add: operation_of_def split: if_splits)
    then show ?thesis using TrackEnded trackEnded_other [of k s B i]
      by (cases "trackEnded k i s") (simp_all add: step_def)
  next
    case (Settle i r)
    then show ?thesis by (simp add: step_def settle_other)
  qed
  then show ?thesis by (simp add: s_def)
qed

theorem instances_share_only_transcript_witness:
  "operation_of (run [Click Microphone, Answer 0 (Inr [audio]), Click Desktop, Answer 1 (Inr [video, audio])] init)
     (DataAvailable 0 [1]) \<noteq> Some Desktop \<and>
   instance_state Desktop (step (DataAvailable 0 [1])
     (run [Click Microphone, Answer 0 (Inr [audio]), Click Desktop, Answer 1 (Inr [video, audio])] init))
   = instance_state Desktop
       (run [Click Microphone, Answer 0 (Inr [audio]), Click Desktop, Answer 1 (Inr [video, audio])] init)"
  using instances_share_only_transcript
    [of "[Click Microphone, Answer 0 (Inr [audio]), Click Desktop, Answer 1 (Inr [video, audio])]"
        "DataAvailable 0 [1]" Desktop]
  by (simp add: run_simps operation_of_def)

text \<open>
  C1, as the claim states it, fails. With both instances started, one chunk arrival on
  the Microphone capture and the completion of its two transcription calls change
  \<^verbatim>\<open>firstString\<close>, \<^verbatim>\<open>transcriptionText\<close> and \<^verbatim>\<open>transcriptionIteration\<close>, the only
  transcript variables there are; the next chunk arrival on the Desktop capture then
  summarizes the Microphone's text, where without the Microphone's merge it would
  summarize the empty string.
\<close>

theorem instances_share_transcript:
  "operation_of (run [Click Microphone, Answer 0 (Inr [audio]), Click Desktop, Answer 1 (Inr [video, audio])] init)
     (DataAvailable 0 [1]) = Some Microphone \<and>
   transcript (run [Click Microphone, Answer 0 (Inr [audio]), Click Desktop, Answer 1 (Inr [video, audio])] init)
     = ([], [], 0) \<and>
   transcript (run [Click Microphone, Answer 0 (Inr [audio]), Click Desktop, Answer 1 (Inr [video, audio]),
                    DataAvailable 0 [1], Settle 1 (Some (js ''Hi'')),
                    Settle 0 (Some (js ''Hi''))] init)
     = (js ''Hi'', js ''Hi'', 1) \<and>
   transcript (run [Click Microphone, Answer 0 (Inr [audio]), Click Desktop, Answer 1 (Inr [video, audio]),
                    DataAvailable 0 [1], Settle 1 (Some (js ''Hi'')),
                    Settle 0 (Some (js ''Hi''))] init)
     \<noteq> transcript (run [Click Microphone, Answer 0 (Inr [audio]),
                         Click Desktop, Answer 1 (Inr [video, audio])] init) \<and>
   summarized (promises (run [Click Microphone, Answer 0 (Inr [audio]), Click Desktop, Answer 1 (Inr [video, audio]),
                    DataAvailable 1 [9] ] init)) = [ [] ] \<and>
   summarized (promises (run [Click Microphone, Answer 0 (Inr [audio]), Click Desktop, Answer 1 (Inr [video, audio]),
                    DataAvailable 0 [1], Settle 1 (Some (js ''Hi'')),
                    Settle 0 (Some (js ''Hi'')), DataAvailable 1 [9] ] init)) = [ [], js ''Hi'']"
  by (simp add: run_simps operation_of_def transcript_def)

text \<open>
  C8, as the code has it. Let the device layer keep to the contract of
  \<^verbatim>\<open>getDisplayMedia\<close> (at most one audio track in a stream), take the capture that the
  Desktop instance currently holds (the one its latest answered \<^verbatim>\<open>captureAudio\<close>
  created), while its recorder is recording, and let one of its live tracks end
  externally. Then the event leaves exactly the session state that \<^verbatim>\<open>stopAudio\<close>
  leaves: the recorder is stopped and every track of the stream has ended, and a later
  \<^verbatim>\<open>stopAudio\<close> changes no session state.
\<close>

theorem track_ended_like_stop:
  assumes "display_contract es init"
    and "mediaRecorder (run es init) Desktop = Some k"
    and "rstate (captures (run es init) ! k) = recording"
    and "i < length (tracks (captures (run es init) ! k))"
    and "readyState (tracks (captures (run es init) ! k) ! i) = live"
  shows "\<exists>s1 s2. trackEnded k i (run es init) = Inr s1 \<and>
           stopAudio Desktop (run es init) = Inr s2 \<and>
           session_state s1 = session_state s2 \<and>
           rstate (captures s1 ! k) = inactive \<and>
           (\<forall>t \<in> set (tracks (captures s1 ! k)). readyState t = ended) \<and>
           (\<exists>s3. stopAudio Desktop s1 = Inr s3 \<and> session_state s3 = session_state s1)"
proof -
  define s where "s = run es init"
  define ts where "ts = tracks (captures s ! k)"
  have ok: "refs_ok s" unfolding s_def by (rule refs_ok_run [OF refs_ok_init])
  have rec: "mediaRecorder s Desktop = Some k" using assms(2) by (simp add: s_def)
  from ok rec have k: "k < length (captures s)" and own: "owner (captures s ! k) = Desktop"
    by (auto simp: refs_ok_def)
  have "handlers_ok s" unfolding s_def by (rule handlers_ok_run [OF handlers_ok_init])
  with k own have str: "mediaStream s = mediaRecorder s" and h: "\<forall>t \<in> set ts. onended t"
    by (simp_all add: handlers_ok_def ts_def)
  have "one_live s" unfolding s_def by (rule one_live_run [OF one_live_init assms(1)])
  with k own have one: "length (filter (\<lambda>t. readyState t = live) ts) \<le> 1"
    by (simp add: one_live_def ts_def)
  have rs: "rstate (captures s ! k) = recording" using assms(3) by (simp add: s_def)
  have i: "i < length ts" and lv: "readyState (ts ! i) = live"
    using assms(4,5) by (simp_all add: s_def ts_def)
  from h i have hi: "onended (ts ! i)" by simp
  have all: "\<forall>j<length ts. j \<noteq> i \<longrightarrow> readyState (ts ! j) = ended"
  proof (intro allI impI)
    fix j assume "j < length ts" "j \<noteq> i"
    from only_live [OF one i lv this] show "readyState (ts ! j) = ended"
      by (cases "readyState (ts ! j)") simp_all
  qed
  define s1 where "s1 = s\<lparr>captures := (captures s)
      [k := (captures s ! k)\<lparr>tracks := ts[i := track_stop (ts ! i)], rstate := inactive\<rparr>]\<rparr>"
  define s2 where "s2 = s\<lparr>captures := (captures s)
      [k := (captures s ! k)\<lparr>tracks := map track_stop ts, rstate := inactive\<rparr>],
      console := console s @ [LogText ''should stop'', LogText ''SHOULD STOP'']\<rparr>"
  have e1: "trackEnded k i s = Inr s1"
    using trackEnded_recording [OF k rs] i lv hi by (simp add: ts_def s1_def)
  have e2: "stopAudio Desktop s = Inr s2"
    using stopAudio_recording [OF rec _ k rs] rec str by (simp add: ts_def s2_def)
  have r1: "rstate (captures s1 ! k) = inactive"
    and t1: "tracks (captures s1 ! k) = ts[i := track_stop (ts ! i)]"
    using k by (simp_all add: s1_def)
  have eq: "map track_stop ts = ts[i := track_stop (ts ! i)]"
    by (rule stop_all_is_stop_one [OF i all])
  then have same: "session_state s1 = session_state s2"
    by (simp add: s1_def s2_def session_state_def)
  have dead: "\<forall>t \<in> set (tracks (captures s1 ! k)). readyState t = ended"
    unfolding t1 eq [symmetric] by (simp add: track_stop_def)
  moreover have "mediaRecorder s1 Desktop = Some k" "mediaStream s1 Desktop = Some k"
    "k < length (captures s1)"
    using rec str k by (simp_all add: s1_def)
  ultimately have again: "\<exists>s3. stopAudio Desktop s1 = Inr s3 \<and> session_state s3 = session_state s1"
    using r1 by (intro stopAudio_stopped) auto
  show ?thesis
    unfolding s_def [symmetric]
    using e1 e2 same r1 dead again by (intro exI [of _ s1] exI [of _ s2]) blast
qed

theorem track_ended_like_stop_witness:
  "display_contract [Click Desktop, Answer 0 (Inr [video, audio])] init \<and>
   mediaRecorder (run [Click Desktop, Answer 0 (Inr [video, audio])] init) Desktop = Some 0 \<and>
   rstate (captures (run [Click Desktop, Answer 0 (Inr [video, audio])] init) ! 0) = recording \<and>
   1 < length (tracks (captures (run [Click Desktop, Answer 0 (Inr [video, audio])] init) ! 0)) \<and>
   readyState (tracks (captures (run [Click Desktop, Answer 0 (Inr [video, audio])] init) ! 0) ! 1)
     = live \<and>
   (\<exists>s1 s2. trackEnded 0 1 (run [Click Desktop, Answer 0 (Inr [video, audio])] init) = Inr s1 \<and>
      stopAudio Desktop (run [Click Desktop, Answer 0 (Inr [video, audio])] init) = Inr s2 \<and>
      session_state s1 = session_state s2 \<and>
      rstate (captures s1 ! 0) = inactive \<and>
      (\<forall>t \<in> set (tracks (captures s1 ! 0)). readyState t = ended) \<and>
      (\<exists>s3. stopAudio Desktop s1 = Inr s3 \<and> session_state s3 = session_state s1))"
proof -
  have h: "display_contract [Click Desktop, Answer 0 (Inr [video, audio])] init"
    "mediaRecorder (run [Click Desktop, Answer 0 (Inr [video, audio])] init) Desktop = Some 0"
    "rstate (captures (run [Click Desktop, Answer 0 (Inr [video, audio])] init) ! 0) = recording"
    "1 < length (tracks (captures (run [Click Desktop, Answer 0 (Inr [video, audio])] init) ! 0))"
    "readyState (tracks (captures (run [Click Desktop, Answer 0 (Inr [video, audio])] init) ! 0) ! 1)
       = live"
    by (simp_all add: run_simps display_answer_def)
  from track_ended_like_stop [OF h] h show ?thesis by blast
qed

text \<open>
  C8, as the claim states it, fails for a Desktop session that a second start has
  replaced. After two answered starts of the Desktop instance the first capture is
  still recording, but the instance holds the second. When the audio track of the
  first ends externally its recorder is stopped, where \<^verbatim>\<open>stopAudio\<close> leaves it
  recording and stops the second capture instead; and a \<^verbatim>\<open>stopAudio\<close> after the event
  is not a no-op.
\<close>

theorem replaced_session_not_stopped:
  "display_contract [Click Desktop, Answer 0 (Inr [video, audio]),
                     Click Desktop, Answer 1 (Inr [video, audio])] init \<and>
   owner (captures (run [Click Desktop, Answer 0 (Inr [video, audio]),
                         Click Desktop, Answer 1 (Inr [video, audio])] init) ! 0) = Desktop \<and>
   rstate (captures (run [Click Desktop, Answer 0 (Inr [video, audio]),
                          Click Desktop, Answer 1 (Inr [video, audio])] init) ! 0) = recording \<and>
   map readyState (tracks (captures (run [Click Desktop, Answer 0 (Inr [video, audio]),
                          Click Desktop, Answer 1 (Inr [video, audio])] init) ! 0))
     = [ended, live] \<and>
   rstate (captures (step (TrackEnded 0 1)
      (run [Click Desktop, Answer 0 (Inr [video, audio]),
            Click Desktop, Answer 1 (Inr [video, audio])] init)) ! 0) = inactive \<and>
   rstate (captures (step (Stop Desktop)
      (run [Click Desktop, Answer 0 (Inr [video, audio]),
            Click Desktop, Answer 1 (Inr [video, audio])] init)) ! 0) = recording \<and>
   session_state (step (TrackEnded 0 1)
      (run [Click Desktop, Answer 0 (Inr [video, audio]),
            Click Desktop, Answer 1 (Inr [video, audio])] init))
     \<noteq> session_state (step (Stop Desktop)
          (run [Click Desktop, Answer 0 (Inr [video, audio]),
                Click Desktop, Answer 1 (Inr [video, audio])] init)) \<and>
   session_state (step (Stop Desktop) (step (TrackEnded 0 1)
      (run [Click Desktop, Answer 0 (Inr [video, audio]),
            Click Desktop, Answer 1 (Inr [video, audio])] init)))
     \<noteq> session_state (step (TrackEnded 0 1)
          (run [Click Desktop, Answer 0 (Inr [video, audio]),
                Click Desktop, Answer 1 (Inr [video, audio])] init))"
  by (simp add: run_simps display_answer_def session_state_def)

text \<open>
  C3, as the code has it. A merge callback of the \<^verbatim>\<open>transcriptionIteration > 0\<close> branch
  that receives \<^verbatim>\<open>firstString\<close> followed by more text appends that further text,
  trimmed, to \<^verbatim>\<open>transcriptionText\<close>, and leaves \<^verbatim>\<open>firstString\<close> alone. With
  \<^verbatim>\<open>firstString\<close> and \<^verbatim>\<open>transcriptionText\<close> both \<^verbatim>\<open>"Hello"\<close>, the result
  \<^verbatim>\<open>"Hello world"\<close> gives \<^verbatim>\<open>"Helloworld"\<close>: the anchor is not duplicated, and the
  space before the suffix is trimmed away.
\<close>

theorem merge_appends_trimmed_suffix:
  assumes "i < length (promises s)" and "promises s ! i = Pending (TAppend b)"
  shows "transcriptionText (settle i (Some (firstString s @ rest)) s)
           = transcriptionText s @ trim rest \<and>
         firstString (settle i (Some (firstString s @ rest)) s) = firstString s"
  using assms slice_suffix [of "firstString s" rest]
  by (simp add: settle_def then_callback_def)

theorem merge_appends_trimmed_suffix_witness:
  "3 < length (promises (run [Click Microphone, Answer 0 (Inr [audio]), DataAvailable 0 [1],
          Settle 1 (Some (js ''Hello'')), Settle 0 (Some (js ''Hello'')),
          DataAvailable 0 [2] ] init)) \<and>
   promises (run [Click Microphone, Answer 0 (Inr [audio]), DataAvailable 0 [1],
          Settle 1 (Some (js ''Hello'')), Settle 0 (Some (js ''Hello'')),
          DataAvailable 0 [2] ] init) ! 3 = Pending (TAppend (Blob [ [1], [2] ])) \<and>
   firstString (run [Click Microphone, Answer 0 (Inr [audio]), DataAvailable 0 [1],
          Settle 1 (Some (js ''Hello'')), Settle 0 (Some (js ''Hello'')),
          DataAvailable 0 [2] ] init) = js ''Hello'' \<and>
   transcriptionText (run [Click Microphone, Answer 0 (Inr [audio]), DataAvailable 0 [1],
          Settle 1 (Some (js ''Hello'')), Settle 0 (Some (js ''Hello'')),
          DataAvailable 0 [2] ] init) = js ''Hello'' \<and>
   transcriptionText (settle 3 (Some (js ''Hello world''))
       (run [Click Microphone, Answer 0 (Inr [audio]), DataAvailable 0 [1],
          Settle 1 (Some (js ''Hello'')), Settle 0 (Some (js ''Hello'')),
          DataAvailable 0 [2] ] init)) = js ''Helloworld''"
  using merge_appends_trimmed_suffix
    [of 3 "run [Click Microphone, Answer 0 (Inr [audio]), DataAvailable 0 [1],
          Settle 1 (Some (js ''Hello'')), Settle 0 (Some (js ''Hello'')),
          DataAvailable 0 [2] ] init" "Blob [ [1], [2] ]" "js '' world''"]
  by (simp add: run_simps)

text \<open>
  C3, as the claim states it, fails. One chunk arrives and both transcription calls
  made for it return \<^verbatim>\<open>"Hello"\<close>; a second chunk arrives and its transcription call
  returns \<^verbatim>\<open>"Hello world"\<close>. If the two first calls complete in the order they were
  made, \<^verbatim>\<open>transcriptionText\<close> is empty after the first merge and \<^verbatim>\<open>"world"\<close> after the
  second; if they complete in the other order it is \<^verbatim>\<open>"Hello"\<close> and then
  \<^verbatim>\<open>"Helloworld"\<close>. Neither ends with \<^verbatim>\<open>"Hello world"\<close>.
\<close>

theorem hello_world_scenario:
  "transcriptionText (run [Click Microphone, Answer 0 (Inr [audio]), DataAvailable 0 [1],
      Settle 0 (Some (js ''Hello'')), Settle 1 (Some (js ''Hello''))] init) = [] \<and>
   transcriptionText (run [Click Microphone, Answer 0 (Inr [audio]), DataAvailable 0 [1],
      Settle 0 (Some (js ''Hello'')), Settle 1 (Some (js ''Hello'')),
      DataAvailable 0 [2], Settle 3 (Some (js ''Hello world''))] init) = js ''world'' \<and>
   transcriptionText (run [Click Microphone, Answer 0 (Inr [audio]), DataAvailable 0 [1],
      Settle 1 (Some (js ''Hello'')), Settle 0 (Some (js ''Hello''))] init) = js ''Hello'' \<and>
   transcriptionText (run [Click Microphone, Answer 0 (Inr [audio]), DataAvailable 0 [1],
      Settle 1 (Some (js ''Hello'')), Settle 0 (Some (js ''Hello'')),
      DataAvailable 0 [2], Settle 3 (Some (js ''Hello world''))] init) = js ''Helloworld'' \<and>
   js ''world'' \<noteq> js ''Hello world'' \<and> js ''Helloworld'' \<noteq> js ''Hello world''"
  by (simp add: run_simps)

text \<open>
  C2 fails on the code. After one chunk arrival and the completion of the call of the
  \<^verbatim>\<open>transcriptionIteration === 0\<close> branch with \<^verbatim>\<open>"Hello"\<close>, \<^verbatim>\<open>firstString\<close> is
  \<^verbatim>\<open>"Hello"\<close> but \<^verbatim>\<open>transcriptionText\<close> is empty: the assignment
  \<^verbatim>\<open>transcriptionText = firstString\<close> ran in the handler, before the callback that sets
  \<^verbatim>\<open>firstString\<close>. After the next merge \<^verbatim>\<open>transcriptionText\<close> does not begin with
  \<^verbatim>\<open>firstString\<close>.
\<close>

theorem first_merge_text_not_anchor:
  "firstString (run [Click Microphone, Answer 0 (Inr [audio]), DataAvailable 0 [1],
      Settle 0 (Some (js ''Hello''))] init) = js ''Hello'' \<and>
   transcriptionText (run [Click Microphone, Answer 0 (Inr [audio]), DataAvailable 0 [1],
      Settle 0 (Some (js ''Hello''))] init) = [] \<and>
   firstString (run [Click Microphone, Answer 0 (Inr [audio]), DataAvailable 0 [1],
      Settle 0 (Some (js ''Hello'')), Settle 1 (Some (js ''Hello'')),
      DataAvailable 0 [2], Settle 3 (Some (js ''Hello world''))] init) = js ''Hello'' \<and>
   take 5 (transcriptionText (run [Click Microphone, Answer 0 (Inr [audio]), DataAvailable 0 [1],
      Settle 0 (Some (js ''Hello'')), Settle 1 (Some (js ''Hello'')),
      DataAvailable 0 [2], Settle 3 (Some (js ''Hello world''))] init)) \<noteq> js ''Hello''"
  by (simp add: run_simps)

text \<open>
  C5 fails on the code. \<^verbatim>\<open>summarize\<close> is called in the handler of the chunk arrival,
  with \<^verbatim>\<open>transcriptionText\<close> as it is before the transcription of that chunk
  completes; the completion of a merge calls nothing. After two chunk arrivals and the
  completion of all three transcription calls, \<^verbatim>\<open>transcriptionText\<close> is \<^verbatim>\<open>"world"\<close> and
  \<^verbatim>\<open>summarize\<close> has been called twice, both times with the empty string.
\<close>

theorem summary_precedes_merge:
  "transcriptionText (run [Click Microphone, Answer 0 (Inr [audio]), DataAvailable 0 [1],
      Settle 0 (Some (js ''Hello'')), Settle 1 (Some (js ''Hello'')),
      DataAvailable 0 [2], Settle 3 (Some (js ''Hello world''))] init) = js ''world'' \<and>
   summarized (promises (run [Click Microphone, Answer 0 (Inr [audio]), DataAvailable 0 [1],
      Settle 0 (Some (js ''Hello'')), Settle 1 (Some (js ''Hello'')),
      DataAvailable 0 [2], Settle 3 (Some (js ''Hello world''))] init)) = [ [], [] ] \<and>
   length (promises (step (Settle 3 (Some (js ''Hello world'')))
      (run [Click Microphone, Answer 0 (Inr [audio]), DataAvailable 0 [1],
        Settle 0 (Some (js ''Hello'')), Settle 1 (Some (js ''Hello'')),
        DataAvailable 0 [2] ] init)))
     = length (promises (run [Click Microphone, Answer 0 (Inr [audio]), DataAvailable 0 [1],
        Settle 0 (Some (js ''Hello'')), Settle 1 (Some (js ''Hello'')),
        DataAvailable 0 [2] ] init))"
  by (simp add: run_simps)

end
